theory Spec2Isabelle
  imports Complex_Main
begin

section \<open>n-dimensional arrays\<close>

text \<open>
  A numpy array is a shape together with its elements in row-major (C) order; the
  notebook only ever builds C-contiguous arrays. An array is well formed when it holds
  exactly as many elements as its shape announces.
\<close>

datatype 'a ndarray = NDArray (shape: "nat list") (data: "'a list")

definition array_ndim :: "'a ndarray \<Rightarrow> nat" where
  "array_ndim a = length (shape a)"

definition wf :: "'a ndarray \<Rightarrow> bool" where
  "wf a \<longleftrightarrow> length (data a) = prod_list (shape a)"

text \<open>All the multi-indices of a shape, in row-major order.\<close>

fun indices :: "nat list \<Rightarrow> nat list list" where
  "indices [] = [[]]"
| "indices (n # ns) = concat (map (\<lambda>i. map ((#) i) (indices ns)) [0..<n])"

text \<open>The position of a multi-index in the row-major element list.\<close>

fun ravel :: "nat list \<Rightarrow> nat list \<Rightarrow> nat" where
  "ravel (n # ns) (i # js) = i * prod_list ns + ravel ns js"
| "ravel _ _ = 0"

definition item :: "'a ndarray \<Rightarrow> nat list \<Rightarrow> 'a" where
  "item a idx = data a ! ravel (shape a) idx"

text \<open>The array of a given shape whose element at every multi-index is given by a function.\<close>

definition of_fun :: "nat list \<Rightarrow> (nat list \<Rightarrow> 'a) \<Rightarrow> 'a ndarray" where
  "of_fun sh f = NDArray sh (map f (indices sh))"

definition map_array :: "('a \<Rightarrow> 'b) \<Rightarrow> 'a ndarray \<Rightarrow> 'b ndarray" where
  "map_array f a = NDArray (shape a) (map f (data a))"

text \<open>Membership of a multi-index in a shape.\<close>

definition in_shape :: "nat list \<Rightarrow> nat list \<Rightarrow> bool" where
  "in_shape sh idx \<longleftrightarrow> list_all2 (\<lambda>i n. i < n) idx sh"

section \<open>Errors and floating-point values\<close>

text \<open>
  The exceptions that the library calls made by the notebook can raise: list assignment
  out of range (\<open>IndexError\<close>), a reshape or a broadcast that does not fit
  (\<open>ValueError\<close>), a filter whose rank differs from the image's
  (\<open>RuntimeError\<close>), and an operand that is not an array of numbers
  (\<open>TypeError\<close>).
\<close>

datatype error = IndexError | ValueError | RuntimeError | TypeError

definition bind_err :: "error + 'a \<Rightarrow> ('a \<Rightarrow> error + 'b) \<Rightarrow> error + 'b" where
  "bind_err m f = (case m of Inl e \<Rightarrow> Inl e | Inr x \<Rightarrow> f x)"

text \<open>A \<open>for\<close> loop over a list that threads one variable and stops at the first exception.\<close>

fun for_each :: "'i list \<Rightarrow> ('i \<Rightarrow> 's \<Rightarrow> error + 's) \<Rightarrow> 's \<Rightarrow> error + 's" where
  "for_each [] body s = Inr s"
| "for_each (i # rest) body s = bind_err (body i s) (for_each rest body)"

text \<open>
  The samples of an image are real numbers. \<open>np.sqrt\<close> and the true division produce
  IEEE results: a number, an infinity, or not-a-number; neither raises (numpy only warns).
\<close>

datatype fval = Num real | PInf | NInf | NaN

definition fsqrt :: "real \<Rightarrow> fval" where
  "fsqrt x = (if x < 0 then NaN else Num (sqrt x))"

fun fdiv :: "fval \<Rightarrow> fval \<Rightarrow> fval" where
  "fdiv (Num x) (Num y) =
     (if y \<noteq> 0 then Num (x / y) else if x = 0 then NaN else if 0 < x then PInf else NInf)"
| "fdiv (Num x) PInf = Num 0"
| "fdiv (Num x) NInf = Num 0"
| "fdiv PInf (Num y) = (if 0 \<le> y then PInf else NInf)"
| "fdiv NInf (Num y) = (if 0 \<le> y then NInf else PInf)"
| "fdiv _ _ = NaN"

section \<open>The numpy and scipy operations that the notebook calls\<close>

definition np_array :: "'a list \<Rightarrow> 'a ndarray" where
  "np_array xs = NDArray [length xs] xs"

definition np_zeros :: "nat list \<Rightarrow> real ndarray" where
  "np_zeros sh = NDArray sh (replicate (prod_list sh) 0)"

text \<open>\<open>a.reshape(newshape)\<close>: the same elements in the same order, when the sizes agree.\<close>

definition reshape :: "'a ndarray \<Rightarrow> nat list \<Rightarrow> error + 'a ndarray" where
  "reshape a newshape =
     (if prod_list newshape = length (data a) then Inr (NDArray newshape (data a))
      else Inl ValueError)"

text \<open>
  Broadcasting: shapes are aligned at their last axis, the shorter one is extended with
  axes of length 1, and two lengths fit when they are equal or one of them is 1. An axis of
  length 1 is read at position 0 whatever the position in the result.
\<close>

definition broadcast_dim :: "nat \<Rightarrow> nat \<Rightarrow> nat option" where
  "broadcast_dim m n =
     (if m = n then Some m else if m = 1 then Some n else if n = 1 then Some m else None)"

definition pad_shape :: "nat \<Rightarrow> nat list \<Rightarrow> nat list" where
  "pad_shape n sh = replicate (n - length sh) 1 @ sh"

definition broadcast_shapes :: "nat list \<Rightarrow> nat list \<Rightarrow> nat list option" where
  "broadcast_shapes s t =
     (let n = max (length s) (length t);
          ds = map2 broadcast_dim (pad_shape n s) (pad_shape n t)
      in if None \<in> set ds then None else Some (map the ds))"

definition broadcast_index :: "nat list \<Rightarrow> nat list \<Rightarrow> nat list" where
  "broadcast_index sh idx =
     map2 (\<lambda>n i. if n = 1 then 0 else i) sh (drop (length idx - length sh) idx)"

definition broadcast_op ::
  "('a \<Rightarrow> 'b \<Rightarrow> 'c) \<Rightarrow> 'a ndarray \<Rightarrow> 'b ndarray \<Rightarrow> error + 'c ndarray" where
  "broadcast_op f a b =
     (case broadcast_shapes (shape a) (shape b) of
        None \<Rightarrow> Inl ValueError
      | Some sh \<Rightarrow>
          Inr (of_fun sh (\<lambda>idx. f (item a (broadcast_index (shape a) idx))
                                  (item b (broadcast_index (shape b) idx)))))"

definition np_multiply :: "real ndarray \<Rightarrow> real ndarray \<Rightarrow> error + real ndarray" where
  "np_multiply a b = broadcast_op (*) a b"

text \<open>\<open>a += b\<close>: the broadcast sum has to have the shape of \<open>a\<close>, which receives it.\<close>

definition iadd :: "real ndarray \<Rightarrow> real ndarray \<Rightarrow> error + real ndarray" where
  "iadd a b =
     bind_err (broadcast_op (+) a b)
       (\<lambda>r. if shape r = shape a then Inr r else Inl ValueError)"

definition np_square :: "real ndarray \<Rightarrow> real ndarray" where
  "np_square a = map_array (\<lambda>x. x\<^sup>2) a"

definition np_sqrt :: "real ndarray \<Rightarrow> fval ndarray" where
  "np_sqrt a = map_array fsqrt a"

definition divide_scalar :: "fval ndarray \<Rightarrow> fval \<Rightarrow> fval ndarray" where
  "divide_scalar a s = map_array (\<lambda>x. fdiv x s) a"

text \<open>
  \<open>mode='reflect'\<close> extends a line \<open>a b c d\<close> to \<open>d c b a | a b c d | d c b a\<close>: the
  extension has period twice the length, and its second half is the first one mirrored.
\<close>

definition reflect :: "nat \<Rightarrow> int \<Rightarrow> nat" where
  "reflect n p =
     (let q = p mod (2 * int n) in if q < int n then nat q else nat (2 * int n - 1 - q))"

text \<open>
  \<open>ndi.convolve(input, weights, mode='reflect')\<close> with the default origin: the result at
  \<open>i\<close> is the sum over the positions \<open>j\<close> of the weights of \<open>W j * I (i + k - j)\<close>, where
  \<open>k\<close> is the centre of the weights (half their length along each axis) and \<open>I\<close> is the
  reflected extension of the input. The weights must have as many axes as the input. An
  input with an axis of length 0 has no position, and its result is empty.
\<close>

definition conv_index :: "nat list \<Rightarrow> nat list \<Rightarrow> nat list \<Rightarrow> nat list \<Rightarrow> nat list" where
  "conv_index sh wsh idx j =
     map (\<lambda>k. reflect (sh ! k) (int (idx ! k) + int (wsh ! k div 2) - int (j ! k)))
       [0..<length sh]"

definition convolve :: "real ndarray \<Rightarrow> real ndarray \<Rightarrow> error + real ndarray" where
  "convolve input weights =
     (let wshape = filter (\<lambda>ii. ii > 0) (shape weights)
      in if length wshape \<noteq> array_ndim input then Inl RuntimeError
         else Inr (of_fun (shape input) (\<lambda>idx.
                \<Sum>j\<leftarrow>indices (shape weights).
                  item weights j * item input (conv_index (shape input) (shape weights) idx j))))"

section \<open>The notebook's Sobel operator\<close>

text \<open>\<open>kernel_shape(ndim, dim)\<close>: \<open>ndim\<close> ones, except a 3 at position \<open>dim\<close>.\<close>

definition kernel_shape :: "nat \<Rightarrow> nat \<Rightarrow> error + nat list" where
  "kernel_shape ndim dim' =
     (let shp = replicate ndim 1
      in if dim' < length shp then Inr (shp[dim' := 3]) else Inl IndexError)"

text \<open>
  \<open>sobel(image)\<close>. The outer loop over the edge axes threads \<open>output\<close>; the inner loop
  over the smoothing axes threads \<open>kernel\<close>, and its \<open>continue\<close> leaves the kernel as it is
  at the edge axis.
\<close>

definition sobel :: "real ndarray \<Rightarrow> error + fval ndarray" where
  "sobel img =
     (let ndim = array_ndim img;
          edge = np_array [1, 0, -1];
          smooth = np_array [1, 2, 1];
          output = np_zeros (shape img)
      in bind_err
           (for_each [0..<ndim] (\<lambda>edge_dim output.
                bind_err (kernel_shape ndim edge_dim) (\<lambda>sh.
                bind_err (reshape edge sh) (\<lambda>kernel.
                bind_err
                  (for_each [0..<ndim] (\<lambda>smooth_dim kernel.
                       if smooth_dim = edge_dim then Inr kernel
                       else bind_err (kernel_shape ndim smooth_dim) (\<lambda>sh'.
                            bind_err (reshape smooth sh') (\<lambda>s.
                            np_multiply kernel s)))
                     kernel) (\<lambda>kernel.
                bind_err (convolve img kernel) (\<lambda>c.
                iadd output (np_square c))))))
              output)
           (\<lambda>output. Inr (divide_scalar (np_sqrt output) (fsqrt (real ndim)))))"

text \<open>
  Two parts of the body of the outer loop, named for the statements about them: the
  kernel for one edge axis, as the inner loop builds it, and the convolution pass of
  that axis, which is the image convolved with this kernel.
\<close>

definition sobel_kernel ::
  "nat \<Rightarrow> real ndarray \<Rightarrow> real ndarray \<Rightarrow> nat \<Rightarrow> error + real ndarray" where
  "sobel_kernel ndim edge smooth edge_dim =
     bind_err (kernel_shape ndim edge_dim) (\<lambda>sh.
     bind_err (reshape edge sh) (\<lambda>kernel.
     for_each [0..<ndim] (\<lambda>smooth_dim kernel.
         if smooth_dim = edge_dim then Inr kernel
         else bind_err (kernel_shape ndim smooth_dim) (\<lambda>sh'.
              bind_err (reshape smooth sh') (\<lambda>s.
              np_multiply kernel s)))
       kernel))"

definition sobel_pass ::
  "real ndarray \<Rightarrow> real ndarray \<Rightarrow> real ndarray \<Rightarrow> nat \<Rightarrow> error + real ndarray" where
  "sobel_pass img edge smooth edge_dim =
     bind_err (sobel_kernel (array_ndim img) edge smooth edge_dim) (\<lambda>kernel.
     convolve img kernel)"

section \<open>Closed forms of the loops\<close>

text \<open>
  The shape and the entries of the kernel after the inner loop has passed the smoothing
  axes below \<open>m\<close>, the value of one convolution pass at a position, and the running sum
  of squares after the edge axes below \<open>k\<close>.
\<close>

definition kernel_dims :: "nat \<Rightarrow> nat \<Rightarrow> nat \<Rightarrow> nat list" where
  "kernel_dims n d m = map (\<lambda>s. if s = d \<or> s < m then 3 else 1) [0..<n]"

definition kernel_value :: "nat \<Rightarrow> nat \<Rightarrow> nat list \<Rightarrow> real" where
  "kernel_value m d j =
     [1, 0, -1] ! (j ! d) * (\<Prod>s\<leftarrow>[0..<m]. if s = d then 1 else [1, 2, 1] ! (j ! s))"

definition pass_value :: "real ndarray \<Rightarrow> nat \<Rightarrow> nat list \<Rightarrow> real" where
  "pass_value img d idx =
     (let n = length (shape img)
      in \<Sum>j\<leftarrow>indices (replicate n 3).
           kernel_value n d j * item img (conv_index (shape img) (replicate n 3) idx j))"

definition squares_sum :: "real ndarray \<Rightarrow> nat \<Rightarrow> nat list \<Rightarrow> real" where
  "squares_sum img k idx = (\<Sum>d\<leftarrow>[0..<k]. (pass_value img d idx)\<^sup>2)"

definition sobel_value :: "real ndarray \<Rightarrow> nat list \<Rightarrow> real" where
  "sobel_value img idx =
     sqrt (squares_sum img (array_ndim img) idx) / sqrt (real (array_ndim img))"

section \<open>Reversing an array along an axis\<close>

text \<open>\<open>np.flip(a, axis)\<close>: position \<open>i\<close> along the axis receives the element at \<open>n - 1 - i\<close>.\<close>

definition flip_index :: "nat list \<Rightarrow> nat \<Rightarrow> nat list \<Rightarrow> nat list" where
  "flip_index sh ax idx = idx[ax := sh ! ax - 1 - idx ! ax]"

definition np_flip :: "'a ndarray \<Rightarrow> nat \<Rightarrow> 'a ndarray" where
  "np_flip a ax = of_fun (shape a) (\<lambda>idx. item a (flip_index (shape a) ax idx))"

section \<open>Scaling an array\<close>

text \<open>
  The product of a scalar and an array, on real samples and on floating-point results
  (where a zero times an infinity, and anything times not-a-number, is not-a-number).
\<close>

fun fmul :: "fval \<Rightarrow> fval \<Rightarrow> fval" where
  "fmul (Num x) (Num y) = Num (x * y)"
| "fmul (Num x) PInf = (if x = 0 then NaN else if 0 < x then PInf else NInf)"
| "fmul (Num x) NInf = (if x = 0 then NaN else if 0 < x then NInf else PInf)"
| "fmul PInf (Num y) = (if y = 0 then NaN else if 0 < y then PInf else NInf)"
| "fmul NInf (Num y) = (if y = 0 then NaN else if 0 < y then NInf else PInf)"
| "fmul PInf PInf = PInf"
| "fmul PInf NInf = NInf"
| "fmul NInf PInf = NInf"
| "fmul NInf NInf = PInf"
| "fmul _ _ = NaN"

definition scale :: "real \<Rightarrow> real ndarray \<Rightarrow> real ndarray" where
  "scale c a = map_array (\<lambda>x. c * x) a"

definition fscale :: "real \<Rightarrow> fval ndarray \<Rightarrow> fval ndarray" where
  "fscale c a = map_array (fmul (Num c)) a"

section \<open>The reference definition of the specification\<close>

text \<open>
  The specification's words, independently of the code. The kernel for axis \<open>d\<close> is the
  outer product of \<open>[1, 0, -1]\<close> along \<open>d\<close> and \<open>[1, 2, 1]\<close> along every other axis.
  Convolution pairs the kernel entry at offset \<open>o\<close> from the kernel's centre with the
  sample at \<open>i - o\<close>; a position beyond an edge is mirrored once about that edge. The
  squares of the convolutions are summed over the axes, and the result is the square root
  of the sum divided by the square root of the number of axes.
\<close>

definition spec_kernel :: "nat \<Rightarrow> nat \<Rightarrow> nat list \<Rightarrow> real" where
  "spec_kernel n d j =
     (\<Prod>s\<leftarrow>[0..<n]. if s = d then [1, 0, -1] ! (j ! s) else [1, 2, 1] ! (j ! s))"

definition mirror :: "nat \<Rightarrow> int \<Rightarrow> nat" where
  "mirror n p =
     (if p < 0 then nat (- p - 1) else if int n \<le> p then nat (2 * int n - 1 - p) else nat p)"

definition spec_convolve :: "real ndarray \<Rightarrow> (nat list \<Rightarrow> real) \<Rightarrow> nat list \<Rightarrow> real" where
  "spec_convolve img k idx =
     (\<Sum>j\<leftarrow>indices (replicate (array_ndim img) 3).
        k j * item img (map (\<lambda>s. mirror (shape img ! s) (int (idx ! s) - (int (j ! s) - 1)))
                          [0..<array_ndim img]))"

definition spec_sobel :: "real ndarray \<Rightarrow> real ndarray" where
  "spec_sobel img =
     of_fun (shape img) (\<lambda>idx.
       sqrt (\<Sum>d\<leftarrow>[0..<array_ndim img].
               (spec_convolve img (spec_kernel (array_ndim img) d) idx)\<^sup>2)
         / sqrt (real (array_ndim img)))"

section \<open>The Sobel operator on a store\<close>

text \<open>
  To speak about mutation and allocation, the same program over an explicit store. The
  store is the list of the element buffers allocated so far; the address of a buffer is
  its position, and allocation appends. An array object is a shape and the address of
  its buffer, so that two objects can share one buffer, as a numpy view does. A buffer
  holds real samples, or the floating-point results of \<open>np.sqrt\<close> and of the division.
\<close>

type_synonym addr = nat

datatype buffer = RBuf "real list" | FBuf "fval list"

type_synonym heap = "buffer list"

datatype aref = ARef (ref_shape: "nat list") (ref_buf: addr)

type_synonym 'a prog = "heap \<Rightarrow> error + 'a \<times> heap"

definition return_h :: "'a \<Rightarrow> 'a prog" where
  "return_h x h = Inr (x, h)"

definition bind_h :: "'a prog \<Rightarrow> ('a \<Rightarrow> 'b prog) \<Rightarrow> 'b prog" where
  "bind_h p f h = (case p h of Inl e \<Rightarrow> Inl e | Inr (x, h') \<Rightarrow> f x h')"

definition lift_h :: "error + 'a \<Rightarrow> 'a prog" where
  "lift_h m h = (case m of Inl e \<Rightarrow> Inl e | Inr x \<Rightarrow> Inr (x, h))"

fun for_each_h :: "'i list \<Rightarrow> ('i \<Rightarrow> 's \<Rightarrow> 's prog) \<Rightarrow> 's \<Rightarrow> 's prog" where
  "for_each_h [] body s h = Inr (s, h)"
| "for_each_h (i # rest) body s h = bind_h (body i s) (for_each_h rest body) h"

text \<open>Reading the array behind an object, allocating a fresh buffer, writing in place.\<close>

definition load_reals :: "aref \<Rightarrow> real ndarray prog" where
  "load_reals r h =
     (if ref_buf r < length h
      then (case h ! ref_buf r of
              RBuf xs \<Rightarrow> Inr (NDArray (ref_shape r) xs, h)
            | FBuf ys \<Rightarrow> Inl TypeError)
      else Inl TypeError)"

definition load_floats :: "aref \<Rightarrow> fval ndarray prog" where
  "load_floats r h =
     (if ref_buf r < length h
      then (case h ! ref_buf r of
              RBuf xs \<Rightarrow> Inl TypeError
            | FBuf ys \<Rightarrow> Inr (NDArray (ref_shape r) ys, h))
      else Inl TypeError)"

definition new_reals :: "real ndarray \<Rightarrow> aref prog" where
  "new_reals a h = Inr (ARef (shape a) (length h), h @ [RBuf (data a)])"

definition new_floats :: "fval ndarray \<Rightarrow> aref prog" where
  "new_floats a h = Inr (ARef (shape a) (length h), h @ [FBuf (data a)])"

definition store_reals :: "aref \<Rightarrow> real ndarray \<Rightarrow> aref prog" where
  "store_reals r a h = Inr (r, h[ref_buf r := RBuf (data a)])"

text \<open>
  The library calls on the store. \<open>reshape\<close> returns a view: a new object on the buffer
  of its argument. Every other call allocates its result, except \<open>+=\<close>, which writes the
  sum into the buffer of its left operand.
\<close>

definition h_array :: "real list \<Rightarrow> aref prog" where
  "h_array xs = new_reals (np_array xs)"

definition h_zeros :: "nat list \<Rightarrow> aref prog" where
  "h_zeros sh = new_reals (np_zeros sh)"

definition h_reshape :: "aref \<Rightarrow> nat list \<Rightarrow> aref prog" where
  "h_reshape r newshape =
     bind_h (load_reals r) (\<lambda>a.
     bind_h (lift_h (reshape a newshape)) (\<lambda>b.
     return_h (ARef (shape b) (ref_buf r))))"

definition h_multiply :: "aref \<Rightarrow> aref \<Rightarrow> aref prog" where
  "h_multiply r1 r2 =
     bind_h (load_reals r1) (\<lambda>a.
     bind_h (load_reals r2) (\<lambda>b.
     bind_h (lift_h (np_multiply a b)) new_reals))"

definition h_convolve :: "aref \<Rightarrow> aref \<Rightarrow> aref prog" where
  "h_convolve r1 r2 =
     bind_h (load_reals r1) (\<lambda>a.
     bind_h (load_reals r2) (\<lambda>b.
     bind_h (lift_h (convolve a b)) new_reals))"

definition h_square :: "aref \<Rightarrow> aref prog" where
  "h_square r = bind_h (load_reals r) (\<lambda>a. new_reals (np_square a))"

definition h_iadd :: "aref \<Rightarrow> aref \<Rightarrow> aref prog" where
  "h_iadd r1 r2 =
     bind_h (load_reals r1) (\<lambda>a.
     bind_h (load_reals r2) (\<lambda>b.
     bind_h (lift_h (iadd a b)) (store_reals r1)))"

definition h_sqrt :: "aref \<Rightarrow> aref prog" where
  "h_sqrt r = bind_h (load_reals r) (\<lambda>a. new_floats (np_sqrt a))"

definition h_divide_scalar :: "aref \<Rightarrow> fval \<Rightarrow> aref prog" where
  "h_divide_scalar r s = bind_h (load_floats r) (\<lambda>a. new_floats (divide_scalar a s))"

definition sobel_h :: "aref \<Rightarrow> aref prog" where
  "sobel_h img =
     (let ndim = length (ref_shape img)
      in bind_h (h_array [1, 0, -1]) (\<lambda>edge.
         bind_h (h_array [1, 2, 1]) (\<lambda>smooth.
         bind_h (h_zeros (ref_shape img)) (\<lambda>output.
         bind_h (for_each_h [0..<ndim] (\<lambda>edge_dim output.
                   bind_h (lift_h (kernel_shape ndim edge_dim)) (\<lambda>sh.
                   bind_h (h_reshape edge sh) (\<lambda>kernel.
                   bind_h
                     (for_each_h [0..<ndim] (\<lambda>smooth_dim kernel.
                          if smooth_dim = edge_dim then return_h kernel
                          else bind_h (lift_h (kernel_shape ndim smooth_dim)) (\<lambda>sh'.
                               bind_h (h_reshape smooth sh') (\<lambda>s.
                               h_multiply kernel s)))
                        kernel) (\<lambda>kernel.
                   bind_h (h_convolve img kernel) (\<lambda>c.
                   bind_h (h_square c) (\<lambda>sq.
                   h_iadd output sq))))))
                 output) (\<lambda>output.
         bind_h (h_sqrt output) (\<lambda>r.
         h_divide_scalar r (fsqrt (real ndim))))))))"

text \<open>The part of the body of the outer loop that builds the kernel.\<close>

definition sobel_kernel_h :: "nat \<Rightarrow> aref \<Rightarrow> aref \<Rightarrow> nat \<Rightarrow> aref prog" where
  "sobel_kernel_h ndim edge smooth edge_dim =
     bind_h (lift_h (kernel_shape ndim edge_dim)) (\<lambda>sh.
     bind_h (h_reshape edge sh) (\<lambda>kernel.
     for_each_h [0..<ndim] (\<lambda>smooth_dim kernel.
         if smooth_dim = edge_dim then return_h kernel
         else bind_h (lift_h (kernel_shape ndim smooth_dim)) (\<lambda>sh'.
              bind_h (h_reshape smooth sh') (\<lambda>s.
              h_multiply kernel s)))
       kernel))"

text \<open>
  Two stores are related by \<open>grow\<close> when the second extends the first without changing
  any buffer of it, and by \<open>keep o\<close> when at most the buffer at \<open>o\<close> was changed.
\<close>

definition grow :: "heap \<Rightarrow> heap \<Rightarrow> bool" where
  "grow h h' \<longleftrightarrow> length h \<le> length h' \<and> (\<forall>x<length h. h' ! x = h ! x)"

definition keep :: "addr \<Rightarrow> heap \<Rightarrow> heap \<Rightarrow> bool" where
  "keep out h h' \<longleftrightarrow> length h \<le> length h' \<and> (\<forall>x<length h. x \<noteq> out \<longrightarrow> h' ! x = h ! x)"

section \<open>Index arithmetic\<close>

lemma in_shape_Nil [simp]: "in_shape [] idx \<longleftrightarrow> idx = []"
  by (simp add: in_shape_def)

lemma in_shape_Cons:
  "in_shape (n # ns) idx \<longleftrightarrow> (\<exists>i js. idx = i # js \<and> i < n \<and> in_shape ns js)"
  by (auto simp: in_shape_def list_all2_Cons2)

lemma in_shape_Cons_Cons [simp]:
  "in_shape (n # ns) (i # js) \<longleftrightarrow> i < n \<and> in_shape ns js"
  by (simp add: in_shape_def)

lemma in_shape_length: "in_shape sh idx \<Longrightarrow> length idx = length sh"
  by (simp add: in_shape_def list_all2_lengthD)

lemma in_shape_nth: "in_shape sh idx \<Longrightarrow> k < length sh \<Longrightarrow> idx ! k < sh ! k"
  by (simp add: in_shape_def list_all2_nthD2)

lemma in_shape_iff:
  "in_shape sh idx \<longleftrightarrow> length idx = length sh \<and> (\<forall>k<length sh. idx ! k < sh ! k)"
  by (auto simp: in_shape_def list_all2_conv_all_nth)

lemma set_indices: "set (indices sh) = {idx. in_shape sh idx}"
proof (induction sh)
  case Nil
  show ?case by auto
next
  case (Cons n ns)
  show ?case
  proof (rule set_eqI)
    fix idx
    show "idx \<in> set (indices (n # ns)) \<longleftrightarrow> idx \<in> {idx. in_shape (n # ns) idx}"
      using Cons.IH by (auto simp: in_shape_Cons)
  qed
qed

lemma indices_iff [simp]: "idx \<in> set (indices sh) \<longleftrightarrow> in_shape sh idx"
  by (simp add: set_indices)

lemma length_concat_uniform:
  "\<forall>xs\<in>set xss. length xs = m \<Longrightarrow> length (concat xss) = length xss * m"
  by (induction xss) auto

lemma nth_concat_uniform:
  "\<forall>xs\<in>set xss. length xs = m \<Longrightarrow> i < length xss \<Longrightarrow> r < m \<Longrightarrow>
   concat xss ! (i * m + r) = xss ! i ! r"
proof (induction xss arbitrary: i)
  case Nil
  then show ?case by simp
next
  case (Cons xs xss)
  show ?case
  proof (cases i)
    case 0
    with Cons.prems show ?thesis by (simp add: nth_append)
  next
    case (Suc i')
    with Cons.prems have "concat xss ! (i' * m + r) = xss ! i' ! r"
      by (intro Cons.IH) auto
    with Cons.prems Suc show ?thesis
      by (simp add: nth_append add.assoc)
  qed
qed

lemma length_indices [simp]: "length (indices sh) = prod_list sh"
proof (induction sh)
  case Nil
  show ?case by simp
next
  case (Cons n ns)
  have "length (indices (n # ns)) = length (map (\<lambda>i. map ((#) i) (indices ns)) [0..<n]) * prod_list ns"
    unfolding indices.simps
    by (rule length_concat_uniform) (auto simp: Cons.IH)
  then show ?case by simp
qed

lemma ravel_less: "in_shape sh idx \<Longrightarrow> ravel sh idx < prod_list sh"
proof (induction sh arbitrary: idx)
  case Nil
  then show ?case by simp
next
  case (Cons n ns)
  then obtain i js where idx: "idx = i # js" "i < n" "in_shape ns js"
    by (auto simp: in_shape_Cons)
  have "ravel ns js < prod_list ns" by (rule Cons.IH) (rule idx)
  then have "i * prod_list ns + ravel ns js < i * prod_list ns + prod_list ns" by simp
  also have "\<dots> = Suc i * prod_list ns" by simp
  also have "\<dots> \<le> n * prod_list ns" using idx(2) by (intro mult_le_mono1) simp
  finally show ?case using idx(1) by simp
qed

lemma nth_indices_ravel: "in_shape sh idx \<Longrightarrow> indices sh ! ravel sh idx = idx"
proof (induction sh arbitrary: idx)
  case Nil
  then show ?case by simp
next
  case (Cons n ns)
  then obtain i js where idx: "idx = i # js" "i < n" "in_shape ns js"
    by (auto simp: in_shape_Cons)
  let ?xss = "map (\<lambda>i. map ((#) i) (indices ns)) [0..<n]"
  have r: "ravel ns js < prod_list ns" by (rule ravel_less) (rule idx)
  have "concat ?xss ! (i * prod_list ns + ravel ns js) = ?xss ! i ! ravel ns js"
    by (rule nth_concat_uniform) (use idx r in auto)
  also have "\<dots> = i # indices ns ! ravel ns js" using idx r by simp
  also have "\<dots> = i # js" using Cons.IH [OF idx(3)] by simp
  finally show ?case using idx(1) by simp
qed

lemma item_of_fun [simp]: "in_shape sh idx \<Longrightarrow> item (of_fun sh f) idx = f idx"
  by (simp add: item_def of_fun_def ravel_less nth_indices_ravel)

lemma shape_of_fun [simp]: "shape (of_fun sh f) = sh"
  by (simp add: of_fun_def)

lemma wf_of_fun [simp]: "wf (of_fun sh f)"
  by (simp add: wf_def of_fun_def)

lemma of_fun_cong:
  "(\<And>idx. in_shape sh idx \<Longrightarrow> f idx = g idx) \<Longrightarrow> of_fun sh f = of_fun sh g"
  by (simp add: of_fun_def)

declare indices.simps [simp del]

section \<open>The error monad and loops\<close>

lemma bind_err_simps [simp]:
  "bind_err (Inr x) f = f x" "bind_err (Inl e) f = Inl e"
  by (simp_all add: bind_err_def)

lemma for_each_append:
  "for_each (xs @ ys) body s = bind_err (for_each xs body s) (for_each ys body)"
  by (induction xs arbitrary: s) (auto simp: bind_err_def split: sum.splits)

lemma for_each_upt:
  assumes "\<And>k. k < n \<Longrightarrow> body k (F k) = Inr (F (Suc k))"
  shows "for_each [0..<n] body (F 0) = Inr (F n)"
  using assms
proof (induction n)
  case 0
  show ?case by simp
next
  case (Suc n)
  have "for_each [0..<n] body (F 0) = Inr (F n)"
    by (rule Suc.IH) (simp add: Suc.prems)
  then show ?case by (simp add: for_each_append Suc.prems)
qed

lemma ravel_nth_indices: "k < prod_list sh \<Longrightarrow> ravel sh (indices sh ! k) = k"
proof (induction sh arbitrary: k)
  case Nil
  then show ?case by simp
next
  case (Cons n ns)
  let ?m = "prod_list ns"
  let ?xss = "map (\<lambda>i. map ((#) i) (indices ns)) [0..<n]"
  from Cons.prems have k: "k < n * ?m" by simp
  then have m: "0 < ?m" by (cases "?m = 0") auto
  have i: "k div ?m < n" using k by (simp add: less_mult_imp_div_less)
  have r: "k mod ?m < ?m" using m by simp
  have "indices (n # ns) ! (k div ?m * ?m + k mod ?m) = ?xss ! (k div ?m) ! (k mod ?m)"
    unfolding indices.simps by (rule nth_concat_uniform) (use i r in auto)
  then have "indices (n # ns) ! k = (k div ?m) # indices ns ! (k mod ?m)"
    using i r by simp
  then show ?case using Cons.IH [OF r] by simp
qed

lemma array_ext: "wf a \<Longrightarrow> of_fun (shape a) (item a) = a"
proof -
  assume w: "wf a"
  have "map (item a) (indices (shape a)) = data a"
    using w by (intro nth_equalityI) (auto simp: wf_def item_def ravel_nth_indices)
  then show ?thesis by (cases a) (simp add: of_fun_def)
qed

lemma prod_list_unit_update:
  "d < n \<Longrightarrow> prod_list ((replicate n (Suc 0))[d := v]) = v"
proof (induction n arbitrary: d)
  case 0
  then show ?case by simp
next
  case (Suc n)
  then show ?case by (cases d) auto
qed

lemma ravel_unit: "in_shape (replicate n (Suc 0)) j \<Longrightarrow> ravel (replicate n (Suc 0)) j = 0"
proof (induction n arbitrary: j)
  case 0
  then show ?case by simp
next
  case (Suc n)
  then show ?case by (auto simp: in_shape_Cons)
qed

lemma ravel_unit_update:
  "d < n \<Longrightarrow> in_shape ((replicate n (Suc 0))[d := v]) j \<Longrightarrow>
   ravel ((replicate n (Suc 0))[d := v]) j = j ! d"
proof (induction n arbitrary: d j)
  case 0
  then show ?case by simp
next
  case (Suc n)
  show ?case
  proof (cases d)
    case 0
    with Suc.prems show ?thesis by (auto simp: in_shape_Cons ravel_unit)
  next
    case (Suc d')
    with Suc.prems Suc.IH [of d'] show ?thesis by (auto simp: in_shape_Cons)
  qed
qed

section \<open>The kernel built by the inner loop\<close>

lemma broadcast_shapesI:
  assumes "length s = length r" "length t = length r"
    and "\<And>k. k < length r \<Longrightarrow> broadcast_dim (s ! k) (t ! k) = Some (r ! k)"
  shows "broadcast_shapes s t = Some r"
proof -
  have "map2 broadcast_dim s t = map Some r"
    using assms by (intro nth_equalityI) auto
  then show ?thesis
    using assms(1,2) by (auto simp: broadcast_shapes_def pad_shape_def Let_def comp_def)
qed

lemma broadcast_index_same_length:
  "length idx = length sh \<Longrightarrow>
   broadcast_index sh idx = map (\<lambda>k. if sh ! k = 1 then 0 else idx ! k) [0..<length sh]"
  by (intro nth_equalityI) (auto simp: broadcast_index_def)

lemma length_kernel_dims [simp]: "length (kernel_dims n d m) = n"
  by (simp add: kernel_dims_def)

lemma nth_kernel_dims [simp]:
  "k < n \<Longrightarrow> kernel_dims n d m ! k = (if k = d \<or> k < m then 3 else 1)"
  by (simp add: kernel_dims_def)

lemma kernel_dims_0: "d < n \<Longrightarrow> (replicate n (Suc 0))[d := 3] = kernel_dims n d 0"
  by (intro nth_equalityI) (auto simp: nth_list_update)

lemma kernel_dims_full: "d < n \<Longrightarrow> kernel_dims n d n = replicate n 3"
  by (intro nth_equalityI) auto

lemma kernel_start:
  assumes "d < n"
  shows "NDArray ((replicate n (Suc 0))[d := 3]) [1, 0, -1] = of_fun (kernel_dims n d 0) (kernel_value 0 d)"
proof -
  let ?sh = "(replicate n (Suc 0))[d := 3]"
  let ?a = "NDArray ?sh [1, 0, -1::real]"
  have "wf ?a" using assms by (simp add: wf_def prod_list_unit_update)
  then have "?a = of_fun ?sh (item ?a)" using array_ext [of ?a] by simp
  also have "\<dots> = of_fun ?sh (kernel_value 0 d)"
    using assms by (intro of_fun_cong) (simp add: item_def ravel_unit_update kernel_value_def)
  finally show ?thesis using assms by (simp add: kernel_dims_0)
qed

lemma item_unit_update:
  assumes "d < n" "in_shape ((replicate n (Suc 0))[d := 3]) j"
  shows "item (NDArray ((replicate n (Suc 0))[d := 3]) xs) j = xs ! (j ! d)"
  using assms by (simp add: item_def ravel_unit_update)

lemma kernel_step:
  assumes d: "d < n" and m: "m < n" and md: "m \<noteq> d"
  shows "np_multiply (of_fun (kernel_dims n d m) (kernel_value m d))
           (NDArray ((replicate n (Suc 0))[m := 3]) [1, 2, 1])
         = Inr (of_fun (kernel_dims n d (Suc m)) (kernel_value (Suc m) d))"
proof -
  let ?s = "kernel_dims n d m" and ?t = "(replicate n (Suc 0))[m := 3]" and ?r = "kernel_dims n d (Suc m)"
  have bs: "broadcast_shapes ?s ?t = Some ?r"
    by (rule broadcast_shapesI) (use m md in \<open>auto simp: broadcast_dim_def nth_list_update\<close>)
  have val: "item (of_fun ?s (kernel_value m d)) (broadcast_index ?s j)
               * item (NDArray ?t [1, 2, 1]) (broadcast_index ?t j) = kernel_value (Suc m) d j"
    if j: "in_shape ?r j" for j
  proof -
    have len: "length j = n" using in_shape_length [OF j] by simp
    have jk: "j ! k < 3" if "k < n" "k = d \<or> k < Suc m" for k
      using in_shape_nth [OF j, of k] that by (simp split: if_splits)
    have jk1: "j ! k = 0" if "k < n" "\<not> (k = d \<or> k < Suc m)" for k
      using in_shape_nth [OF j, of k] that by (simp split: if_splits)
    let ?bs = "broadcast_index ?s j" and ?bt = "broadcast_index ?t j"
    have bs_eq: "?bs = map (\<lambda>k. if ?s ! k = 1 then 0 else j ! k) [0..<n]"
      using broadcast_index_same_length [of j ?s] len by simp
    have bt_eq: "?bt = map (\<lambda>k. if ?t ! k = 1 then 0 else j ! k) [0..<n]"
      using broadcast_index_same_length [of j ?t] len by simp
    have in_s: "in_shape ?s ?bs"
      unfolding in_shape_iff using jk by (auto simp: bs_eq)
    have in_t: "in_shape ?t ?bt"
      unfolding in_shape_iff using jk m by (auto simp: bt_eq nth_list_update)
    have bs_nth: "?bs ! k = j ! k" if "k < n" "k = d \<or> k < m" for k
      using that by (simp add: bs_eq)
    have "item (of_fun ?s (kernel_value m d)) ?bs = kernel_value m d ?bs"
      using in_s by simp
    also have "\<dots> = kernel_value m d j"
    proof -
      have p: "map (\<lambda>s. if s = d then 1 else [1, 2, 1::real] ! (?bs ! s)) [0..<m]
          = map (\<lambda>s. if s = d then 1 else [1, 2, 1] ! (j ! s)) [0..<m]"
        using m by (intro map_cong) (auto simp: bs_nth)
      have e: "?bs ! d = j ! d" using d by (simp add: bs_nth)
      show ?thesis unfolding kernel_value_def p e by (rule refl)
    qed
    finally have a: "item (of_fun ?s (kernel_value m d)) ?bs = kernel_value m d j" .
    have "item (NDArray ?t [1, 2, 1::real]) ?bt = [1, 2, 1] ! (?bt ! m)"
      by (rule item_unit_update [OF m in_t])
    also have "?bt ! m = j ! m" using m by (simp add: bt_eq)
    finally have b: "item (NDArray ?t [1, 2, 1::real]) ?bt = [1, 2, 1] ! (j ! m)" .
    show ?thesis using md by (simp add: a b) (simp add: kernel_value_def)
  qed
  show ?thesis
    unfolding np_multiply_def broadcast_op_def
    by (simp add: bs) (rule of_fun_cong, simp add: val)
qed

lemma kernel_skip:
  "of_fun (kernel_dims n d (Suc d)) (kernel_value (Suc d) d) = of_fun (kernel_dims n d d) (kernel_value d d)"
proof -
  have "kernel_dims n d (Suc d) = kernel_dims n d d"
    unfolding kernel_dims_def by (intro map_cong) auto
  moreover have "kernel_value (Suc d) d = kernel_value d d"
    by (rule ext) (simp add: kernel_value_def)
  ultimately show ?thesis by simp
qed

lemma sobel_kernel_closed:
  assumes d: "d < n"
  shows "sobel_kernel n (np_array [1, 0, -1]) (np_array [1, 2, 1]) d
         = Inr (of_fun (replicate n 3) (kernel_value n d))"
proof -
  let ?F = "\<lambda>m. of_fun (kernel_dims n d m) (kernel_value m d)"
  let ?body = "\<lambda>smooth_dim kernel.
         if smooth_dim = d then Inr kernel
         else bind_err (kernel_shape n smooth_dim) (\<lambda>sh'.
              bind_err (reshape (np_array [1, 2, 1]) sh') (\<lambda>s.
              np_multiply kernel s))"
  have step: "?body m (?F m) = Inr (?F (Suc m))" if "m < n" for m
  proof (cases "m = d")
    case True
    then show ?thesis by (simp add: kernel_skip)
  next
    case False
    then show ?thesis
      using that d
      by (simp add: kernel_shape_def reshape_def np_array_def prod_list_unit_update kernel_step)
  qed
  have loop: "for_each [0..<n] ?body (?F 0) = Inr (?F n)"
    by (rule for_each_upt) (rule step)
  have start: "reshape (np_array [1, 0, -1]) ((replicate n (Suc 0))[d := 3]) = Inr (?F 0)"
    using d by (simp add: reshape_def np_array_def prod_list_unit_update kernel_start)
  show ?thesis
    unfolding sobel_kernel_def
    using d by (simp add: kernel_shape_def start loop kernel_dims_full)
qed

section \<open>The result of the outer loop\<close>

lemma sum_list_map_cong:
  "(\<And>x. x \<in> set xs \<Longrightarrow> f x = g x) \<Longrightarrow> (\<Sum>x\<leftarrow>xs. f x) = (\<Sum>x\<leftarrow>xs. g x)"
  by (induction xs) auto

lemma sobel_pass_closed:
  assumes "d < array_ndim img"
  shows "sobel_pass img (np_array [1, 0, -1]) (np_array [1, 2, 1]) d
         = Inr (of_fun (shape img) (pass_value img d))"
proof -
  let ?n = "length (shape img)"
  have d: "d < ?n" using assms by (simp add: array_ndim_def)
  have "(\<Sum>j\<leftarrow>indices (replicate ?n 3).
            item (of_fun (replicate ?n 3) (kernel_value ?n d)) j
              * item img (conv_index (shape img) (replicate ?n 3) idx j))
        = pass_value img d idx" for idx
    unfolding pass_value_def Let_def by (rule sum_list_map_cong) simp
  then show ?thesis
    unfolding sobel_pass_def
    by (simp add: array_ndim_def sobel_kernel_closed [OF d] convolve_def)
qed

lemma np_zeros_of_fun: "np_zeros sh = of_fun sh (\<lambda>idx. 0)"
  by (simp add: np_zeros_def of_fun_def map_replicate_const)

lemma map_array_of_fun: "map_array f (of_fun sh g) = of_fun sh (\<lambda>idx. f (g idx))"
  by (simp add: map_array_def of_fun_def)

lemma broadcast_shapes_same: "broadcast_shapes sh sh = Some sh"
  by (rule broadcast_shapesI) (simp_all add: broadcast_dim_def)

lemma broadcast_index_same: "in_shape sh idx \<Longrightarrow> broadcast_index sh idx = idx"
proof -
  assume i: "in_shape sh idx"
  have len: "length idx = length sh" by (rule in_shape_length [OF i])
  have "map (\<lambda>k. if sh ! k = 1 then 0 else idx ! k) [0..<length sh] = idx"
  proof (intro nth_equalityI)
    show "length (map (\<lambda>k. if sh ! k = 1 then 0 else idx ! k) [0..<length sh]) = length idx"
      using len by simp
  next
    fix k assume "k < length (map (\<lambda>k. if sh ! k = 1 then 0 else idx ! k) [0..<length sh])"
    then have k: "k < length sh" by simp
    then show "map (\<lambda>k. if sh ! k = 1 then 0 else idx ! k) [0..<length sh] ! k = idx ! k"
      using in_shape_nth [OF i k] by auto
  qed
  then show ?thesis by (simp add: broadcast_index_same_length [OF len])
qed

lemma iadd_of_fun:
  "iadd (of_fun sh f) (of_fun sh g) = Inr (of_fun sh (\<lambda>idx. f idx + g idx))"
proof -
  have "of_fun sh (\<lambda>idx. item (of_fun sh f) (broadcast_index sh idx)
                         + item (of_fun sh g) (broadcast_index sh idx))
        = of_fun sh (\<lambda>idx. f idx + g idx)"
    by (rule of_fun_cong) (simp add: broadcast_index_same)
  then show ?thesis
    by (simp add: iadd_def broadcast_op_def broadcast_shapes_same)
qed

lemma bind_err_assoc:
  "bind_err (bind_err m f) g = bind_err m (\<lambda>x. bind_err (f x) g)"
  by (cases m) simp_all

lemma sobel_by_passes:
  "sobel img =
     (let ndim = array_ndim img;
          edge = np_array [1, 0, -1];
          smooth = np_array [1, 2, 1];
          output = np_zeros (shape img)
      in bind_err
           (for_each [0..<ndim] (\<lambda>edge_dim output.
                bind_err (sobel_pass img edge smooth edge_dim) (\<lambda>c.
                iadd output (np_square c)))
              output)
           (\<lambda>output. Inr (divide_scalar (np_sqrt output) (fsqrt (real ndim)))))"
  unfolding sobel_def sobel_pass_def sobel_kernel_def bind_err_assoc Let_def ..

lemma sobel_closed:
  "sobel img = Inr (of_fun (shape img) (\<lambda>idx.
       fdiv (fsqrt (squares_sum img (array_ndim img) idx)) (fsqrt (real (array_ndim img)))))"
proof -
  let ?n = "array_ndim img"
  let ?e = "np_array [1, 0, -1::real]" and ?s = "np_array [1, 2, 1::real]"
  let ?F = "\<lambda>k. of_fun (shape img) (squares_sum img k)"
  let ?body = "\<lambda>edge_dim output.
      bind_err (sobel_pass img ?e ?s edge_dim) (\<lambda>c. iadd output (np_square c))"
  have step: "?body k (?F k) = Inr (?F (Suc k))" if "k < ?n" for k
  proof -
    have "(\<lambda>idx. squares_sum img k idx + (pass_value img k idx)\<^sup>2) = squares_sum img (Suc k)"
      by (rule ext) (simp add: squares_sum_def)
    then show ?thesis
      using that by (simp add: sobel_pass_closed np_square_def map_array_of_fun iadd_of_fun)
  qed
  have loop: "for_each [0..<?n] ?body (?F 0) = Inr (?F ?n)"
    by (rule for_each_upt) (rule step)
  have start: "np_zeros (shape img) = ?F 0"
    unfolding np_zeros_of_fun by (rule of_fun_cong) (simp add: squares_sum_def)
  show ?thesis
    unfolding sobel_by_passes Let_def start loop
    by (simp add: np_sqrt_def divide_scalar_def map_array_of_fun)
qed

lemma squares_sum_nonneg: "0 \<le> squares_sum img k idx"
  unfolding squares_sum_def by (rule sum_list_nonneg) auto


lemma sobel_closed_pos:
  assumes "shape img \<noteq> []"
  shows "sobel img = Inr (of_fun (shape img) (\<lambda>idx. Num (sobel_value img idx)))"
proof -
  have "0 < array_ndim img" using assms by (simp add: array_ndim_def)
  then show ?thesis
    unfolding sobel_closed sobel_value_def
    using squares_sum_nonneg [of img "array_ndim img"]
    by (simp add: fsqrt_def not_less [symmetric])
qed

section \<open>Zero-dimensional input\<close>

text \<open>
  Claim C2 says that a zero-dimensional image makes \<open>sobel\<close> fail with an invalid-argument
  error. The function has no check on the number of axes: with no axis both loops are
  empty, no library call can raise, and the final division is \<open>0.0 / 0.0\<close>. At the
  scalar image 5 the call returns the zero-dimensional array holding not-a-number.
\<close>

theorem sobel_scalar_counterexample:
  "sobel (NDArray [] [5]) = Inr (NDArray [] [NaN])"
  by (simp add: sobel_closed of_fun_def fsqrt_def squares_sum_def array_ndim_def indices.simps)

text \<open>
  Claim C2, amended: for every zero-dimensional input \<open>sobel\<close> raises no error; it
  returns a zero-dimensional result whose single value is not-a-number.
\<close>

theorem sobel_scalar_returns_nan:
  "shape img = [] \<Longrightarrow> sobel img = Inr (NDArray [] [NaN])"
  by (simp add: sobel_closed of_fun_def fsqrt_def squares_sum_def array_ndim_def indices.simps)

theorem sobel_scalar_returns_nan_witness:
  "shape (NDArray [] [2::real]) = [] \<and> sobel (NDArray [] [2]) = Inr (NDArray [] [NaN])"
  using sobel_scalar_returns_nan [of "NDArray [] [2]"] by simp

section \<open>Shape and sign of the result\<close>

text \<open>A run of the function, used to instantiate the statements below.\<close>

lemma sobel_example:
  "sobel (NDArray [4] [1, 2, 4, 8]) = Inr (NDArray [4] [Num 1, Num 3, Num 6, Num 4])"
proof -
  have p: "pass_value (NDArray [4] [1, 2, 4, 8]) 0 [0] = 1"
    "pass_value (NDArray [4] [1, 2, 4, 8]) 0 [Suc 0] = 3"
    "pass_value (NDArray [4] [1, 2, 4, 8]) 0 [2] = 6"
    "pass_value (NDArray [4] [1, 2, 4, 8]) 0 [3] = 4"
    by code_simp+
  have i: "indices [4] = [[0], [1], [2], [3]]" by code_simp
  show ?thesis
    by (simp add: sobel_closed_pos of_fun_def i sobel_value_def squares_sum_def array_ndim_def p)
qed

text \<open>
  Claim C3: for every input array with at least one axis, \<open>sobel\<close> returns an array
  whose shape is the shape of the input (and which holds as many elements as that shape
  announces).
\<close>

theorem sobel_shape:
  "shape img \<noteq> [] \<Longrightarrow> \<exists>out. sobel img = Inr out \<and> shape out = shape img \<and> wf out"
  by (simp add: sobel_closed_pos)

theorem sobel_shape_witness:
  "shape (NDArray [4] [1, 2, 4, 8::real]) \<noteq> []
   \<and> (\<exists>out. sobel (NDArray [4] [1, 2, 4, 8]) = Inr out \<and> out = NDArray [4] [Num 1, Num 3, Num 6, Num 4]
         \<and> shape out = [4] \<and> wf out)"
  using sobel_shape [of "NDArray [4] [1, 2, 4, 8]"] by (simp add: sobel_example)

lemma sobel_value_nonneg: "0 \<le> sobel_value img idx"
  unfolding sobel_value_def by (simp add: squares_sum_nonneg)



section \<open>Reflected positions\<close>

lemma reflect_less: "0 < n \<Longrightarrow> reflect n p < n"
proof -
  assume n: "0 < n"
  let ?q = "p mod (2 * int n)"
  have "0 \<le> ?q" "?q < 2 * int n" using n by simp_all
  then show ?thesis unfolding reflect_def Let_def by auto
qed

lemma conv_index_in_shape:
  assumes "in_shape sh idx"
  shows "in_shape sh (conv_index sh w idx j)"
  unfolding in_shape_iff
proof (intro conjI allI impI)
  show "length (conv_index sh w idx j) = length sh" by (simp add: conv_index_def)
next
  fix k assume k: "k < length sh"
  then have "0 < sh ! k" using in_shape_nth [OF assms k] by simp
  then show "conv_index sh w idx j ! k < sh ! k"
    using k by (simp add: conv_index_def reflect_less)
qed

section \<open>One-dimensional input\<close>

lemma item_1d: "item (NDArray [n] xs) [k] = xs ! k"
  by (simp add: item_def)



section \<open>Reindexing sums over a flipped axis\<close>

lemma flip_index_in_shape:
  "in_shape sh idx \<Longrightarrow> in_shape sh (flip_index sh ax idx)"
proof -
  assume i: "in_shape sh idx"
  have len: "length idx = length sh" by (rule in_shape_length [OF i])
  show ?thesis
    unfolding in_shape_iff
  proof (intro conjI allI impI)
    show "length (flip_index sh ax idx) = length sh" by (simp add: flip_index_def len)
  next
    fix k assume k: "k < length sh"
    have "idx ! k < sh ! k" by (rule in_shape_nth [OF i k])
    then show "flip_index sh ax idx ! k < sh ! k"
      using k len by (cases "k = ax") (auto simp: flip_index_def)
  qed
qed

lemma flip_index_involution:
  "in_shape sh idx \<Longrightarrow> flip_index sh ax (flip_index sh ax idx) = idx"
proof -
  assume i: "in_shape sh idx"
  show ?thesis
  proof (cases "ax < length sh")
    case True
    then have "idx ! ax < sh ! ax" by (rule in_shape_nth [OF i])
    then have "sh ! ax - 1 - (sh ! ax - 1 - idx ! ax) = idx ! ax" by simp
    then show ?thesis
      using True in_shape_length [OF i] by (simp add: flip_index_def)
  next
    case False
    then show ?thesis using in_shape_length [OF i] by (simp add: flip_index_def list_update_beyond)
  qed
qed

lemma distinct_indices: "distinct (indices sh)"
  unfolding distinct_conv_nth
proof (intro allI impI)
  fix i j
  assume "i < length (indices sh)" "j < length (indices sh)" "i \<noteq> j"
  then have "ravel sh (indices sh ! i) \<noteq> ravel sh (indices sh ! j)"
    by (simp add: ravel_nth_indices)
  then show "indices sh ! i \<noteq> indices sh ! j" by auto
qed

lemma sum_indices: "(\<Sum>j\<leftarrow>indices sh. f j) = sum f {j. in_shape sh j}"
  by (simp add: sum_list_distinct_conv_sum_set distinct_indices set_indices)

lemma sum_indices_flip:
  "(\<Sum>j\<leftarrow>indices sh. f (flip_index sh ax j)) = (\<Sum>j\<leftarrow>indices sh. (f j :: real))"
  unfolding sum_indices
  by (rule sum.reindex_bij_witness [of _ "flip_index sh ax" "flip_index sh ax"])
     (simp_all add: flip_index_in_shape flip_index_involution)

section \<open>Symmetry of the kernel and of the reflected extension\<close>

lemma edge_antisym: "k < 3 \<Longrightarrow> [1, 0, -1::real] ! (2 - k) = - ([1, 0, -1] ! k)"
proof -
  assume "k < 3"
  then consider "k = 0" | "k = 1" | "k = 2" by linarith
  then show ?thesis by cases simp_all
qed

lemma smooth_sym: "k < 3 \<Longrightarrow> [1, 2, 1::real] ! (2 - k) = [1, 2, 1] ! k"
proof -
  assume "k < 3"
  then consider "k = 0" | "k = 1" | "k = 2" by linarith
  then show ?thesis by cases simp_all
qed

lemma kernel_value_flip:
  assumes j: "in_shape (replicate n 3) j" and ax: "ax < n" and d: "d < n"
  shows "kernel_value n d (flip_index (replicate n 3) ax j)
         = (if d = ax then - 1 else 1) * kernel_value n d j"
proof -
  let ?j' = "flip_index (replicate n 3) ax j"
  have len: "length j = n" using in_shape_length [OF j] by simp
  have j3: "j ! ax < 3" using in_shape_nth [OF j, of ax] ax by simp
  have nth: "?j' ! k = (if k = ax then 2 - j ! ax else j ! k)" if "k < n" for k
    using that ax len by (simp add: flip_index_def nth_list_update)
  have smooth: "map (\<lambda>s. if s = d then 1 else [1, 2, 1::real] ! (?j' ! s)) [0..<n]
              = map (\<lambda>s. if s = d then 1 else [1, 2, 1] ! (j ! s)) [0..<n]"
    using j3 by (intro map_cong) (auto simp: nth smooth_sym)
  have edge: "[1, 0, -1::real] ! (?j' ! d) = (if d = ax then - 1 else 1) * [1, 0, -1] ! (j ! d)"
    using d j3 by (simp add: nth edge_antisym)
  show ?thesis unfolding kernel_value_def smooth edge by simp
qed

lemma reflect_mirror:
  assumes n: "0 < n"
  shows "reflect n (int n - 1 - p) = n - 1 - reflect n p"
proof -
  let ?M = "2 * int n"
  let ?q = "p mod ?M"
  have q: "0 \<le> ?q" "?q < ?M" using n by simp_all
  have m: "(int n - 1 - p) mod ?M = (int n - 1 - ?q) mod ?M"
    by (simp add: mod_diff_right_eq)
  show ?thesis
  proof (cases "?q < int n")
    case True
    then have "(int n - 1 - ?q) mod ?M = int n - 1 - ?q"
      using q by (intro mod_pos_pos_trivial) auto
    with True q show ?thesis
      unfolding reflect_def Let_def m by auto
  next
    case False
    have "(int n - 1 - ?q) mod ?M = (int n - 1 - ?q + ?M) mod ?M"
      by (simp only: mod_add_self2)
    also have "\<dots> = int n - 1 - ?q + ?M"
      using False q by (intro mod_pos_pos_trivial) auto
    finally have "(int n - 1 - ?q) mod ?M = 3 * int n - 1 - ?q" by simp
    with False q show ?thesis
      unfolding reflect_def Let_def m by auto
  qed
qed

lemma conv_index_flip:
  assumes idx: "in_shape sh idx" and j: "in_shape (replicate (length sh) 3) j"
  shows "flip_index sh ax (conv_index sh (replicate (length sh) 3) idx j)
         = conv_index sh (replicate (length sh) 3)
             (flip_index sh ax idx) (flip_index (replicate (length sh) 3) ax j)"
proof (cases "ax < length sh")
  case False
  then show ?thesis
    using in_shape_length [OF idx] in_shape_length [OF j]
    by (simp add: flip_index_def list_update_beyond conv_index_def)
next
  case ax: True
  let ?w = "replicate (length sh) (3::nat)"
  have li: "length idx = length sh" by (rule in_shape_length [OF idx])
  have lj: "length j = length sh" using in_shape_length [OF j] by simp
  have i_lt: "idx ! ax < sh ! ax" by (rule in_shape_nth [OF idx ax])
  have j_lt: "j ! ax < 3" using in_shape_nth [OF j, of ax] ax by simp
  have pos: "0 < sh ! ax" using i_lt by simp
  have arith: "int (sh ! ax - 1 - idx ! ax) + 1 - int (3 - 1 - j ! ax)
               = int (sh ! ax) - 1 - (int (idx ! ax) + 1 - int (j ! ax))"
    using i_lt j_lt by (simp add: of_nat_diff)
  show ?thesis
  proof (intro nth_equalityI)
    show "length (flip_index sh ax (conv_index sh ?w idx j))
          = length (conv_index sh ?w (flip_index sh ax idx) (flip_index ?w ax j))"
      by (simp add: flip_index_def conv_index_def)
  next
    fix k assume "k < length (flip_index sh ax (conv_index sh ?w idx j))"
    then have k: "k < length sh" by (simp add: flip_index_def conv_index_def)
    show "flip_index sh ax (conv_index sh ?w idx j) ! k
          = conv_index sh ?w (flip_index sh ax idx) (flip_index ?w ax j) ! k"
    proof (cases "k = ax")
      case True
      have l: "flip_index sh ax (conv_index sh ?w idx j) ! ax
               = sh ! ax - 1 - reflect (sh ! ax) (int (idx ! ax) + 1 - int (j ! ax))"
        using ax by (simp add: flip_index_def conv_index_def)
      have r: "conv_index sh ?w (flip_index sh ax idx) (flip_index ?w ax j) ! ax
               = reflect (sh ! ax) (int (sh ! ax - 1 - idx ! ax) + 1 - int (3 - 1 - j ! ax))"
        using ax li lj by (simp add: flip_index_def conv_index_def)
      show ?thesis
        unfolding True l r arith by (rule reflect_mirror [OF pos, symmetric])
    next
      case False
      then show ?thesis
        using k li lj by (simp add: flip_index_def conv_index_def)
    qed
  qed
qed

lemma pass_value_flip:
  assumes idx: "in_shape (shape img) idx" and ax: "ax < length (shape img)"
    and d: "d < length (shape img)"
  shows "pass_value (np_flip img ax) d idx
         = (if d = ax then - 1 else 1) * pass_value img d (flip_index (shape img) ax idx)"
proof -
  let ?sh = "shape img" and ?n = "length (shape img)"
  let ?w = "replicate ?n (3::nat)"
  let ?\<sigma> = "if d = ax then - 1 else 1 :: real"
  let ?g = "\<lambda>j. kernel_value ?n d j * item img (conv_index ?sh ?w (flip_index ?sh ax idx) j)"
  have "pass_value (np_flip img ax) d idx
        = (\<Sum>j\<leftarrow>indices ?w. kernel_value ?n d j * item (np_flip img ax) (conv_index ?sh ?w idx j))"
    by (simp add: pass_value_def np_flip_def Let_def)
  also have "\<dots> = (\<Sum>j\<leftarrow>indices ?w. ?\<sigma> * ?g (flip_index ?w ax j))"
  proof (rule sum_list_map_cong)
    fix j assume "j \<in> set (indices ?w)"
    then have j: "in_shape ?w j" by simp
    have "item (np_flip img ax) (conv_index ?sh ?w idx j)
          = item img (flip_index ?sh ax (conv_index ?sh ?w idx j))"
      by (simp add: np_flip_def conv_index_in_shape [OF idx])
    also have "\<dots> = item img (conv_index ?sh ?w (flip_index ?sh ax idx) (flip_index ?w ax j))"
      by (simp only: conv_index_flip [OF idx j])
    finally have a: "item (np_flip img ax) (conv_index ?sh ?w idx j)
          = item img (conv_index ?sh ?w (flip_index ?sh ax idx) (flip_index ?w ax j))" .
    have b: "kernel_value ?n d j = ?\<sigma> * kernel_value ?n d (flip_index ?w ax j)"
      using kernel_value_flip [OF j ax d] by simp
    show "kernel_value ?n d j * item (np_flip img ax) (conv_index ?sh ?w idx j)
          = ?\<sigma> * ?g (flip_index ?w ax j)"
      unfolding a by (subst b) simp
  qed
  also have "\<dots> = ?\<sigma> * (\<Sum>j\<leftarrow>indices ?w. ?g (flip_index ?w ax j))"
    by (simp add: sum_list_const_mult)
  also have "(\<Sum>j\<leftarrow>indices ?w. ?g (flip_index ?w ax j)) = (\<Sum>j\<leftarrow>indices ?w. ?g j)"
    by (rule sum_indices_flip)
  also have "\<dots> = pass_value img d (flip_index ?sh ax idx)"
    by (simp add: pass_value_def Let_def)
  finally show ?thesis .
qed

lemma pass_value_unfold:
  "pass_value img d idx
   = (\<Sum>j\<leftarrow>indices (replicate (length (shape img)) 3).
        kernel_value (length (shape img)) d j
          * item img (conv_index (shape img) (replicate (length (shape img)) 3) idx j))"
  by (simp add: pass_value_def Let_def)

lemma sobel_value_flip:
  assumes idx: "in_shape (shape img) idx" and ax: "ax < length (shape img)"
  shows "sobel_value (np_flip img ax) idx = sobel_value img (flip_index (shape img) ax idx)"
proof -
  have "(\<Sum>d\<leftarrow>[0..<length (shape img)]. (pass_value (np_flip img ax) d idx)\<^sup>2)
        = (\<Sum>d\<leftarrow>[0..<length (shape img)]. (pass_value img d (flip_index (shape img) ax idx))\<^sup>2)"
  proof (rule sum_list_map_cong)
    fix d assume "d \<in> set [0..<length (shape img)]"
    then have d: "d < length (shape img)" by simp
    show "(pass_value (np_flip img ax) d idx)\<^sup>2
          = (pass_value img d (flip_index (shape img) ax idx))\<^sup>2"
      unfolding pass_value_flip [OF idx ax d] by (simp add: power_mult_distrib)
  qed
  then show ?thesis
    by (simp add: sobel_value_def squares_sum_def array_ndim_def np_flip_def)
qed



section \<open>Axes of length 1\<close>

lemma reflect_unit: "reflect (Suc 0) p = 0"
proof -
  have "p mod 2 = 0 \<or> p mod 2 = 1" by auto
  then show ?thesis unfolding reflect_def Let_def by auto
qed

lemma conv_index_unit_axis:
  assumes d: "d < length sh" and one: "sh ! d = 1" and j: "length j = length sh"
  shows "conv_index sh w idx (flip_index w d j) = conv_index sh w idx j"
  unfolding conv_index_def
proof (rule map_cong)
  fix k assume "k \<in> set [0..<length sh]"
  then have k: "k < length sh" by simp
  show "reflect (sh ! k) (int (idx ! k) + int (w ! k div 2) - int (flip_index w d j ! k))
        = reflect (sh ! k) (int (idx ! k) + int (w ! k div 2) - int (j ! k))"
  proof (cases "k = d")
    case True
    then show ?thesis using one by (simp add: reflect_unit)
  next
    case False
    then show ?thesis by (simp add: flip_index_def)
  qed
qed simp

lemma sum_list_neg: "(\<Sum>x\<leftarrow>xs. - f x) = - (\<Sum>x\<leftarrow>xs. (f x :: real))"
  by (induction xs) auto

lemma antisym_sum_zero:
  assumes "\<And>j. in_shape sh j \<Longrightarrow> g (flip_index sh ax j) = - g j"
  shows "(\<Sum>j\<leftarrow>indices sh. (g j :: real)) = 0"
proof -
  have "(\<Sum>j\<leftarrow>indices sh. g j) = (\<Sum>j\<leftarrow>indices sh. g (flip_index sh ax j))"
    by (rule sum_indices_flip [symmetric])
  also have "\<dots> = (\<Sum>j\<leftarrow>indices sh. - g j)"
    by (rule sum_list_map_cong) (simp add: assms)
  also have "\<dots> = - (\<Sum>j\<leftarrow>indices sh. g j)"
    by (rule sum_list_neg)
  finally show ?thesis by simp
qed

lemma pass_value_unit_axis:
  assumes d: "d < length (shape img)" and one: "shape img ! d = 1"
  shows "pass_value img d idx = 0"
  unfolding pass_value_unfold
proof (rule antisym_sum_zero [where ax = d])
  fix j assume j: "in_shape (replicate (length (shape img)) 3) j"
  have len: "length j = length (shape img)" using in_shape_length [OF j] by simp
  show "kernel_value (length (shape img)) d (flip_index (replicate (length (shape img)) 3) d j)
          * item img (conv_index (shape img) (replicate (length (shape img)) 3) idx
                        (flip_index (replicate (length (shape img)) 3) d j))
        = - (kernel_value (length (shape img)) d j
              * item img (conv_index (shape img) (replicate (length (shape img)) 3) idx j))"
    by (simp add: kernel_value_flip [OF j d d] conv_index_unit_axis [OF d one len])
qed

lemma iadd_zero:
  assumes "wf out"
  shows "iadd out (np_square (np_zeros (shape out))) = Inr out"
proof -
  have "iadd (of_fun (shape out) (item out)) (of_fun (shape out) (\<lambda>idx. 0\<^sup>2))
        = Inr (of_fun (shape out) (\<lambda>idx. item out idx + 0\<^sup>2))"
    by (rule iadd_of_fun)
  then show ?thesis
    by (simp add: np_square_def np_zeros_of_fun map_array_of_fun array_ext [OF assms])
qed



section \<open>Constant images\<close>

lemma kernel_sum_zero:
  assumes "d < n"
  shows "(\<Sum>j\<leftarrow>indices (replicate n 3). kernel_value n d j) = 0"
  by (rule antisym_sum_zero [where ax = d]) (simp add: kernel_value_flip assms)

lemma const_array: "NDArray sh (replicate (prod_list sh) c) = of_fun sh (\<lambda>idx. c)"
  by (simp add: of_fun_def map_replicate_const)

lemma pass_value_constant:
  assumes idx: "in_shape sh idx" and d: "d < length sh"
  shows "pass_value (of_fun sh (\<lambda>idx. c)) d idx = 0"
proof -
  let ?w = "replicate (length sh) (3::nat)"
  have "pass_value (of_fun sh (\<lambda>idx. c)) d idx
        = (\<Sum>j\<leftarrow>indices ?w. kernel_value (length sh) d j * c)"
    unfolding pass_value_unfold shape_of_fun
    by (rule sum_list_map_cong) (simp add: conv_index_in_shape [OF idx])
  also have "\<dots> = (\<Sum>j\<leftarrow>indices ?w. kernel_value (length sh) d j) * c"
    by (simp add: sum_list_mult_const)
  finally show ?thesis by (simp add: kernel_sum_zero [OF d])
qed

lemma sum_list_zeros: "(\<And>x. x \<in> set xs \<Longrightarrow> f x = 0) \<Longrightarrow> (\<Sum>x\<leftarrow>xs. (f x :: real)) = 0"
  by (induction xs) auto

lemma sobel_constant:
  assumes "sh \<noteq> []"
  shows "sobel (of_fun sh (\<lambda>idx. c)) = Inr (of_fun sh (\<lambda>idx. Num 0))"
proof -
  have "sobel_value (of_fun sh (\<lambda>idx. c)) idx = 0" if idx: "in_shape sh idx" for idx
  proof -
    have "squares_sum (of_fun sh (\<lambda>idx. c)) (length sh) idx = 0"
      unfolding squares_sum_def
      by (rule sum_list_zeros) (simp add: pass_value_constant [OF idx])
    then show ?thesis by (simp add: sobel_value_def array_ndim_def)
  qed
  then have "of_fun sh (\<lambda>idx. Num (sobel_value (of_fun sh (\<lambda>idx. c)) idx))
             = of_fun sh (\<lambda>idx. Num 0)"
    by (intro of_fun_cong) simp
  then show ?thesis
    using sobel_closed_pos [of "of_fun sh (\<lambda>idx. c)"] assms by simp
qed



section \<open>Absolute homogeneity\<close>

lemma item_map_array:
  "wf a \<Longrightarrow> in_shape (shape a) idx \<Longrightarrow> item (map_array f a) idx = f (item a idx)"
  by (simp add: item_def map_array_def wf_def ravel_less)

lemma pass_value_scale:
  assumes w: "wf img" and idx: "in_shape (shape img) idx"
  shows "pass_value (scale c img) d idx = c * pass_value img d idx"
proof -
  have sh: "shape (scale c img) = shape img" by (simp add: scale_def map_array_def)
  let ?w = "replicate (length (shape img)) (3::nat)"
  have "pass_value (scale c img) d idx
        = (\<Sum>j\<leftarrow>indices ?w. c * (kernel_value (length (shape img)) d j
                                     * item img (conv_index (shape img) ?w idx j)))"
    unfolding pass_value_unfold sh
    by (rule sum_list_map_cong)
       (simp add: scale_def item_map_array [OF w conv_index_in_shape [OF idx]])
  also have "\<dots> = c * pass_value img d idx"
    unfolding pass_value_unfold by (simp add: sum_list_const_mult)
  finally show ?thesis .
qed

lemma sobel_value_scale:
  assumes w: "wf img" and idx: "in_shape (shape img) idx"
  shows "sobel_value (scale c img) idx = \<bar>c\<bar> * sobel_value img idx"
proof -
  have n: "array_ndim (scale c img) = array_ndim img"
    by (simp add: scale_def map_array_def array_ndim_def)
  have "squares_sum (scale c img) k idx = c\<^sup>2 * squares_sum img k idx" for k
    unfolding squares_sum_def
    by (simp add: pass_value_scale [OF w idx] power_mult_distrib sum_list_const_mult)
  then show ?thesis
    by (simp add: sobel_value_def n real_sqrt_mult)
qed

text \<open>
  Claim C10: for every well-formed input array with at least one axis and every real
  \<open>c\<close>, \<open>sobel\<close> of the image scaled by \<open>c\<close> is the result of \<open>sobel\<close> on the image,
  scaled by the absolute value of \<open>c\<close>.
\<close>

theorem sobel_homogeneous:
  assumes w: "wf img" and ne: "shape img \<noteq> []"
  shows "\<exists>out. sobel img = Inr out \<and> sobel (scale c img) = Inr (fscale \<bar>c\<bar> out)"
proof -
  let ?sh = "shape img"
  have sh: "shape (scale c img) = ?sh" by (simp add: scale_def map_array_def)
  have "sobel (scale c img) = Inr (of_fun ?sh (\<lambda>idx. Num (sobel_value (scale c img) idx)))"
    using sobel_closed_pos [of "scale c img"] ne by (simp add: sh)
  also have "of_fun ?sh (\<lambda>idx. Num (sobel_value (scale c img) idx))
             = of_fun ?sh (\<lambda>idx. Num (\<bar>c\<bar> * sobel_value img idx))"
    by (rule of_fun_cong) (simp add: sobel_value_scale [OF w])
  also have "\<dots> = fscale \<bar>c\<bar> (of_fun ?sh (\<lambda>idx. Num (sobel_value img idx)))"
    by (simp add: fscale_def map_array_of_fun)
  finally show ?thesis using sobel_closed_pos [OF ne] by blast
qed

theorem sobel_homogeneous_witness:
  "wf (NDArray [2, 2] [1, 2, 3, 5::real]) \<and> shape (NDArray [2, 2] [1, 2, 3, 5::real]) \<noteq> []
   \<and> (\<exists>out. sobel (NDArray [2, 2] [1, 2, 3, 5]) = Inr out
         \<and> sobel (NDArray [2, 2] [- 3, - 6, - 9, - 15]) = Inr (fscale 3 out))"
proof -
  have s: "scale (- 3) (NDArray [2, 2] [1, 2, 3, 5]) = NDArray [2, 2] [- 3, - 6, - 9, - 15]"
    by code_simp
  show ?thesis
    using sobel_homogeneous [of "NDArray [2, 2] [1, 2, 3, 5]" "- 3"]
    by (simp add: wf_def s)
qed

section \<open>The code against the reference definition\<close>

lemma reflect_mirror_once:
  assumes n: "0 < n" and lo: "- int n \<le> p" and hi: "p < 2 * int n"
  shows "reflect n p = mirror n p"
proof (cases "p < 0")
  case True
  have "p mod (2 * int n) = (p + 2 * int n) mod (2 * int n)"
    by (simp only: mod_add_self2)
  also have "\<dots> = p + 2 * int n"
    using True lo n by (intro mod_pos_pos_trivial) auto
  finally have "p mod (2 * int n) = p + 2 * int n" .
  then show ?thesis
    using True lo by (simp add: reflect_def mirror_def Let_def)
next
  case False
  then have "p mod (2 * int n) = p"
    using hi by (intro mod_pos_pos_trivial) auto
  then show ?thesis
    using False by (simp add: reflect_def mirror_def Let_def)
qed

lemma prod_list_split_axis:
  "(\<Prod>s\<leftarrow>[0..<m]. if s = d then e s else (f s :: real))
   = (if d < m then e d else 1) * (\<Prod>s\<leftarrow>[0..<m]. if s = d then 1 else f s)"
  by (induction m) auto

lemma kernel_value_spec: "d < n \<Longrightarrow> kernel_value n d j = spec_kernel n d j"
  unfolding kernel_value_def spec_kernel_def
  by (subst prod_list_split_axis) simp

lemma conv_index_spec:
  assumes idx: "in_shape sh idx" and j: "in_shape (replicate (length sh) 3) j"
  shows "conv_index sh (replicate (length sh) 3) idx j
         = map (\<lambda>s. mirror (sh ! s) (int (idx ! s) - (int (j ! s) - 1))) [0..<length sh]"
  unfolding conv_index_def
proof (rule map_cong)
  fix s assume "s \<in> set [0..<length sh]"
  then have s: "s < length sh" by simp
  have i_lt: "idx ! s < sh ! s" by (rule in_shape_nth [OF idx s])
  have j_lt: "j ! s < 3" using in_shape_nth [OF j, of s] s by simp
  have w: "replicate (length sh) (3::nat) ! s div 2 = 1" using s by simp
  have e: "int (idx ! s) + int (replicate (length sh) 3 ! s div 2) - int (j ! s)
           = int (idx ! s) - (int (j ! s) - 1)"
    unfolding w by simp
  show "reflect (sh ! s) (int (idx ! s) + int (replicate (length sh) 3 ! s div 2) - int (j ! s))
        = mirror (sh ! s) (int (idx ! s) - (int (j ! s) - 1))"
    unfolding e using i_lt j_lt by (intro reflect_mirror_once) auto
qed simp

lemma pass_value_spec:
  assumes idx: "in_shape (shape img) idx" and d: "d < array_ndim img"
  shows "pass_value img d idx = spec_convolve img (spec_kernel (array_ndim img) d) idx"
  unfolding pass_value_unfold spec_convolve_def array_ndim_def
proof (rule sum_list_map_cong)
  fix j assume "j \<in> set (indices (replicate (length (shape img)) 3))"
  then have j: "in_shape (replicate (length (shape img)) 3) j" by simp
  show "kernel_value (length (shape img)) d j
          * item img (conv_index (shape img) (replicate (length (shape img)) 3) idx j)
        = spec_kernel (length (shape img)) d j
          * item img (map (\<lambda>s. mirror (shape img ! s) (int (idx ! s) - (int (j ! s) - 1)))
                        [0..<length (shape img)])"
    using d by (simp add: conv_index_spec [OF idx j] kernel_value_spec array_ndim_def)
qed



section \<open>The store follows the values\<close>

lemma bind_h_simps [simp]:
  "p h = Inr (x, h') \<Longrightarrow> bind_h p f h = f x h'"
  "p h = Inl e \<Longrightarrow> bind_h p f h = Inl e"
  by (simp_all add: bind_h_def)

lemma lift_h_simps [simp]:
  "lift_h (Inr x) h = Inr (x, h)" "lift_h (Inl e) h = Inl e"
  by (simp_all add: lift_h_def)

lemma return_h_simp [simp]: "return_h x h = Inr (x, h)"
  by (simp add: return_h_def)

lemma bind_err_Inr:
  "bind_err m f = Inr y \<Longrightarrow> \<exists>x. m = Inr x \<and> f x = Inr y"
  by (cases m) simp_all

lemma grow_refl [simp]: "grow h h"
  by (simp add: grow_def)

lemma grow_trans: "grow h1 h2 \<Longrightarrow> grow h2 h3 \<Longrightarrow> grow h1 h3"
  by (auto simp: grow_def)

lemma grow_append [simp]: "grow h (h @ t)"
  by (simp add: grow_def nth_append)

lemma grow_keep: "grow h h' \<Longrightarrow> keep out h h'"
  by (simp add: grow_def keep_def)

lemma keep_refl [simp]: "keep out h h"
  by (simp add: keep_def)

lemma keep_trans: "keep out h1 h2 \<Longrightarrow> keep out h2 h3 \<Longrightarrow> keep out h1 h3"
  by (auto simp: keep_def)

lemma keep_update [simp]: "keep out h (h[out := b])"
  by (simp add: keep_def)

lemma load_reals_grow:
  "load_reals r h = Inr (a, h) \<Longrightarrow> grow h h' \<Longrightarrow> load_reals r h' = Inr (a, h')"
  by (auto simp: load_reals_def grow_def split: if_splits buffer.splits)

lemma load_reals_keep:
  "load_reals r h = Inr (a, h) \<Longrightarrow> keep out h h' \<Longrightarrow> ref_buf r \<noteq> out \<Longrightarrow>
   load_reals r h' = Inr (a, h')"
  by (auto simp: load_reals_def keep_def split: if_splits buffer.splits)

lemma load_reals_new:
  "load_reals (ARef (shape a) (length h)) (h @ [RBuf (data a)]) = Inr (a, h @ [RBuf (data a)])"
  by (simp add: load_reals_def)

lemma load_floats_new:
  "load_floats (ARef (shape a) (length h)) (h @ [FBuf (data a)]) = Inr (a, h @ [FBuf (data a)])"
  by (simp add: load_floats_def)

lemma load_reals_shape: "load_reals r h = Inr (a, h') \<Longrightarrow> shape a = ref_shape r"
  by (auto simp: load_reals_def split: if_splits buffer.splits)

lemma load_reals_bound: "load_reals r h = Inr (a, h') \<Longrightarrow> ref_buf r < length h"
  by (auto simp: load_reals_def split: if_splits buffer.splits)

text \<open>A loop on the store follows the loop on values, step by step.\<close>

lemma for_each_h_sim:
  assumes "for_each xs body a = Inr a'" and "R s a h"
    and step: "\<And>i s a a1 h. R s a h \<Longrightarrow> body i a = Inr a1 \<Longrightarrow>
                 \<exists>s1 h1. bodyh i s h = Inr (s1, h1) \<and> R s1 a1 h1"
  shows "\<exists>s' h'. for_each_h xs bodyh s h = Inr (s', h') \<and> R s' a' h'"
  using assms(1,2)
proof (induction xs arbitrary: s a h)
  case Nil
  then show ?case by auto
next
  case (Cons i rest)
  from Cons.prems(1) obtain a1 where a1: "body i a = Inr a1" "for_each rest body a1 = Inr a'"
    by (auto dest: bind_err_Inr)
  from step [OF Cons.prems(2) a1(1)] obtain s1 h1
    where s1: "bodyh i s h = Inr (s1, h1)" "R s1 a1 h1" by blast
  from Cons.IH [OF a1(2) s1(2)] obtain s' h'
    where "for_each_h rest bodyh s1 h1 = Inr (s', h')" "R s' a' h'" by blast
  then show ?case using s1(1) by auto
qed

lemma h_reshape_sim:
  assumes "load_reals r h = Inr (a, h)" and "reshape a sh = Inr b"
  shows "\<exists>r'. h_reshape r sh h = Inr (r', h) \<and> load_reals r' h = Inr (b, h)"
proof -
  have b: "b = NDArray sh (data a)" using assms(2) by (auto simp: reshape_def split: if_splits)
  have "h_reshape r sh h = Inr (ARef sh (ref_buf r), h)"
    using assms by (simp add: h_reshape_def b)
  moreover have "load_reals (ARef sh (ref_buf r)) h = Inr (b, h)"
    using assms(1) by (auto simp: load_reals_def b split: if_splits buffer.splits)
  ultimately show ?thesis by blast
qed

lemma h_multiply_sim:
  assumes "load_reals r1 h = Inr (a, h)" and "load_reals r2 h = Inr (b, h)"
    and "np_multiply a b = Inr c"
  shows "\<exists>r' h'. h_multiply r1 r2 h = Inr (r', h') \<and> grow h h' \<and> load_reals r' h' = Inr (c, h')"
  using assms by (simp add: h_multiply_def new_reals_def load_reals_new)

lemma h_convolve_sim:
  assumes "load_reals r1 h = Inr (a, h)" and "load_reals r2 h = Inr (b, h)"
    and "convolve a b = Inr c"
  shows "\<exists>r' h'. h_convolve r1 r2 h = Inr (r', h') \<and> grow h h' \<and> load_reals r' h' = Inr (c, h')"
  using assms by (simp add: h_convolve_def new_reals_def load_reals_new)

lemma h_square_sim:
  assumes "load_reals r h = Inr (a, h)"
  shows "\<exists>r' h'. h_square r h = Inr (r', h') \<and> grow h h'
           \<and> load_reals r' h' = Inr (np_square a, h')"
  using assms by (simp add: h_square_def new_reals_def load_reals_new)

lemma iadd_shape: "iadd a b = Inr c \<Longrightarrow> shape c = shape a"
  by (auto simp: iadd_def dest!: bind_err_Inr split: if_splits)

lemma h_iadd_sim:
  assumes "load_reals r1 h = Inr (a, h)" and "load_reals r2 h = Inr (b, h)"
    and "iadd a b = Inr c"
  shows "\<exists>h'. h_iadd r1 r2 h = Inr (r1, h') \<and> keep (ref_buf r1) h h' \<and> length h' = length h
           \<and> load_reals r1 h' = Inr (c, h')"
proof -
  let ?h' = "h[ref_buf r1 := RBuf (data c)]"
  have "h_iadd r1 r2 h = Inr (r1, ?h')"
    using assms by (simp add: h_iadd_def store_reals_def)
  moreover have "load_reals r1 ?h' = Inr (c, ?h')"
    using load_reals_bound [OF assms(1)] load_reals_shape [OF assms(1)] iadd_shape [OF assms(3)]
    by (cases c) (simp add: load_reals_def)
  ultimately show ?thesis by simp
qed

lemma sobel_kernel_h_sim:
  assumes e: "load_reals edge h = Inr (E, h)" and s: "load_reals smooth h = Inr (S, h)"
    and k: "sobel_kernel n E S d = Inr K"
  shows "\<exists>r h'. sobel_kernel_h n edge smooth d h = Inr (r, h') \<and> grow h h'
           \<and> load_reals r h' = Inr (K, h')"
proof -
  let ?body = "\<lambda>smooth_dim kernel.
         if smooth_dim = d then Inr kernel
         else bind_err (kernel_shape n smooth_dim) (\<lambda>sh'.
              bind_err (reshape S sh') (\<lambda>s. np_multiply kernel s))"
  let ?bodyh = "\<lambda>smooth_dim kernel.
         if smooth_dim = d then return_h kernel
         else bind_h (lift_h (kernel_shape n smooth_dim)) (\<lambda>sh'.
              bind_h (h_reshape smooth sh') (\<lambda>s. h_multiply kernel s))"
  let ?R = "\<lambda>r a h'. grow h h' \<and> load_reals r h' = Inr (a, h')"
  from k obtain sh k0 where sh: "kernel_shape n d = Inr sh" and k0: "reshape E sh = Inr k0"
    and loop: "for_each [0..<n] ?body k0 = Inr K"
    unfolding sobel_kernel_def by (auto dest!: bind_err_Inr)
  from h_reshape_sim [OF e k0] obtain r0
    where r0: "h_reshape edge sh h = Inr (r0, h)" "load_reals r0 h = Inr (k0, h)" by blast
  have step: "\<exists>s1 h1. ?bodyh i r h' = Inr (s1, h1) \<and> ?R s1 a1 h1"
    if R: "?R r a h'" and b: "?body i a = Inr a1" for i r a a1 h'
  proof (cases "i = d")
    case True
    with R b show ?thesis by auto
  next
    case False
    with b obtain sh' s1 where sh': "kernel_shape n i = Inr sh'" and s1: "reshape S sh' = Inr s1"
      and m: "np_multiply a s1 = Inr a1"
      by (auto dest!: bind_err_Inr)
    have sm: "load_reals smooth h' = Inr (S, h')" using load_reals_grow [OF s] R by simp
    from h_reshape_sim [OF sm s1] obtain sr
      where sr: "h_reshape smooth sh' h' = Inr (sr, h')" "load_reals sr h' = Inr (s1, h')" by blast
    from R have lr: "load_reals r h' = Inr (a, h')" by simp
    from h_multiply_sim [OF lr sr(2) m] obtain r' h''
      where m': "h_multiply r sr h' = Inr (r', h'')" "grow h' h''" "load_reals r' h'' = Inr (a1, h'')"
      by blast
    have "grow h h''" using R m'(2) by (blast intro: grow_trans)
    then show ?thesis using False sh' sr(1) m' by simp
  qed
  have "\<exists>r h'. for_each_h [0..<n] ?bodyh r0 h = Inr (r, h') \<and> ?R r K h'"
  proof (rule for_each_h_sim [where R = ?R and body = ?body and bodyh = ?bodyh and a = k0])
    show "for_each [0..<n] ?body k0 = Inr K" by (rule loop)
    show "?R r0 k0 h" using r0(2) by simp
    fix i r a a1 h'
    assume "?R r a h'" and "?body i a = Inr a1"
    then show "\<exists>s1 h1. ?bodyh i r h' = Inr (s1, h1) \<and> ?R s1 a1 h1" by (rule step)
  qed
  then obtain r h' where "for_each_h [0..<n] ?bodyh r0 h = Inr (r, h')" "?R r K h'" by blast
  then show ?thesis
    unfolding sobel_kernel_h_def using sh r0(1) by simp
qed

lemma bind_h_assoc:
  "bind_h (bind_h p f) g = bind_h p (\<lambda>x. bind_h (f x) g)"
  by (rule ext) (simp add: bind_h_def split: sum.splits prod.splits)

lemma sobel_h_by_kernel:
  "sobel_h img =
     (let ndim = length (ref_shape img)
      in bind_h (h_array [1, 0, -1]) (\<lambda>edge.
         bind_h (h_array [1, 2, 1]) (\<lambda>smooth.
         bind_h (h_zeros (ref_shape img)) (\<lambda>output.
         bind_h (for_each_h [0..<ndim] (\<lambda>edge_dim output.
                   bind_h (sobel_kernel_h ndim edge smooth edge_dim) (\<lambda>kernel.
                   bind_h (h_convolve img kernel) (\<lambda>c.
                   bind_h (h_square c) (\<lambda>sq.
                   h_iadd output sq))))
                 output) (\<lambda>output.
         bind_h (h_sqrt output) (\<lambda>r.
         h_divide_scalar r (fsqrt (real ndim))))))))"
  unfolding sobel_h_def sobel_kernel_h_def bind_h_assoc Let_def ..

lemma sobel_h_sim:
  assumes img: "load_reals iref h = Inr (img, h)"
  shows "\<exists>out h' r. sobel_h iref h = Inr (out, h') \<and> grow h h' \<and> length h \<le> ref_buf out
           \<and> load_floats out h' = Inr (r, h') \<and> sobel img = Inr r"
proof -
  let ?n = "length (ref_shape iref)"
  let ?E = "np_array [1, 0, -1::real]" and ?S = "np_array [1, 2, 1::real]"
  let ?Z = "np_zeros (ref_shape iref)"
  have shp: "shape img = ref_shape iref" by (rule load_reals_shape [OF img])
  have ndim: "array_ndim img = ?n" by (simp add: array_ndim_def shp)
  let ?body = "\<lambda>edge_dim output.
      bind_err (sobel_pass img ?E ?S edge_dim) (\<lambda>c. iadd output (np_square c))"
  obtain rr where rr: "sobel img = Inr rr" using sobel_closed [of img] by blast
  then obtain acc where loop: "for_each [0..<?n] ?body ?Z = Inr acc"
    and rr_eq: "rr = divide_scalar (np_sqrt acc) (fsqrt (real ?n))"
    unfolding sobel_by_passes Let_def ndim shp by (auto dest!: bind_err_Inr)
  let ?h1 = "h @ [RBuf (data ?E)]"
  let ?h2 = "?h1 @ [RBuf (data ?S)]"
  let ?h3 = "?h2 @ [RBuf (data ?Z)]"
  let ?edge = "ARef (shape ?E) (length h)"
  let ?smooth = "ARef (shape ?S) (length ?h1)"
  let ?output = "ARef (shape ?Z) (length ?h2)"
  let ?o = "ref_buf ?output"
  have bound: "ref_buf iref < length h" by (rule load_reals_bound [OF img])
  have g3: "grow h ?h3" by (simp add: grow_def nth_append)
  have l_img: "load_reals iref ?h3 = Inr (img, ?h3)" by (rule load_reals_grow [OF img g3])
  have l_edge: "load_reals ?edge ?h3 = Inr (?E, ?h3)"
    by (rule load_reals_grow [OF load_reals_new]) (rule grow_trans [OF grow_append grow_append])
  have l_smooth: "load_reals ?smooth ?h3 = Inr (?S, ?h3)"
    by (rule load_reals_grow [OF load_reals_new]) (rule grow_append)
  have l_out: "load_reals ?output ?h3 = Inr (?Z, ?h3)" by (rule load_reals_new)
  let ?bodyh = "\<lambda>edge_dim output.
      bind_h (sobel_kernel_h ?n ?edge ?smooth edge_dim) (\<lambda>kernel.
      bind_h (h_convolve iref kernel) (\<lambda>c.
      bind_h (h_square c) (\<lambda>sq. h_iadd output sq)))"
  let ?R = "\<lambda>s a hk. s = ?output \<and> keep ?o ?h3 hk \<and> load_reals ?output hk = Inr (a, hk)"
  have step: "\<exists>s1 h1. ?bodyh d s hk = Inr (s1, h1) \<and> ?R s1 a1 h1"
    if R: "?R s a hk" and b: "?body d a = Inr a1" for d s a a1 hk
  proof -
    from b obtain K c where K: "sobel_kernel ?n ?E ?S d = Inr K" and c: "convolve img K = Inr c"
      and a1: "iadd a (np_square c) = Inr a1"
      unfolding sobel_pass_def ndim by (auto dest!: bind_err_Inr)
    from R have s: "s = ?output" and kp: "keep ?o ?h3 hk"
      and lo: "load_reals ?output hk = Inr (a, hk)" by simp_all
    have e_k: "load_reals ?edge hk = Inr (?E, hk)"
      by (rule load_reals_keep [OF l_edge kp]) simp
    have s_k: "load_reals ?smooth hk = Inr (?S, hk)"
      by (rule load_reals_keep [OF l_smooth kp]) simp
    have i_k: "load_reals iref hk = Inr (img, hk)"
      by (rule load_reals_keep [OF l_img kp]) (use bound in simp)
    from sobel_kernel_h_sim [OF e_k s_k K] obtain kr hk1
      where k1: "sobel_kernel_h ?n ?edge ?smooth d hk = Inr (kr, hk1)" "grow hk hk1"
        "load_reals kr hk1 = Inr (K, hk1)" by blast
    have i_k1: "load_reals iref hk1 = Inr (img, hk1)" by (rule load_reals_grow [OF i_k k1(2)])
    from h_convolve_sim [OF i_k1 k1(3) c] obtain cr hk2
      where k2: "h_convolve iref kr hk1 = Inr (cr, hk2)" "grow hk1 hk2"
        "load_reals cr hk2 = Inr (c, hk2)" by blast
    from h_square_sim [OF k2(3)] obtain sq hk3
      where k3: "h_square cr hk2 = Inr (sq, hk3)" "grow hk2 hk3"
        "load_reals sq hk3 = Inr (np_square c, hk3)" by blast
    have g: "grow hk hk3" using k1(2) k2(2) k3(2) by (blast intro: grow_trans)
    have lo3: "load_reals ?output hk3 = Inr (a, hk3)" by (rule load_reals_grow [OF lo g])
    from h_iadd_sim [OF lo3 k3(3) a1] obtain hk4
      where k4: "h_iadd ?output sq hk3 = Inr (?output, hk4)" "keep ?o hk3 hk4"
        "load_reals ?output hk4 = Inr (a1, hk4)" by blast
    have "keep ?o ?h3 hk4"
      using kp grow_keep [OF g, of ?o] k4(2) by (blast intro: keep_trans)
    moreover have "?bodyh d s hk = Inr (?output, hk4)"
      unfolding s using k1(1) k2(1) k3(1) k4(1) by simp
    ultimately show ?thesis using k4(3) by blast
  qed
  have "\<exists>s' hn. for_each_h [0..<?n] ?bodyh ?output ?h3 = Inr (s', hn) \<and> ?R s' acc hn"
  proof (rule for_each_h_sim [where R = ?R and body = ?body and bodyh = ?bodyh and a = ?Z])
    show "for_each [0..<?n] ?body ?Z = Inr acc" by (rule loop)
    show "?R ?output ?Z ?h3" using l_out by simp
    fix d s a a1 hk
    assume "?R s a hk" and "?body d a = Inr a1"
    then show "\<exists>s1 h1. ?bodyh d s hk = Inr (s1, h1) \<and> ?R s1 a1 h1" by (rule step)
  qed
  then obtain hn where hn: "for_each_h [0..<?n] ?bodyh ?output ?h3 = Inr (?output, hn)"
    and kn: "keep ?o ?h3 hn" and ln: "load_reals ?output hn = Inr (acc, hn)" by blast
  let ?sq = "np_sqrt acc"
  let ?hn1 = "hn @ [FBuf (data ?sq)]"
  let ?r1 = "ARef (shape ?sq) (length hn)"
  let ?h' = "?hn1 @ [FBuf (data rr)]"
  let ?out = "ARef (shape rr) (length ?hn1)"
  have s1: "h_sqrt ?output hn = Inr (?r1, ?hn1)"
    using ln by (simp add: h_sqrt_def new_floats_def)
  have s2: "h_divide_scalar ?r1 (fsqrt (real ?n)) ?hn1 = Inr (?out, ?h')"
    using load_floats_new [of ?sq hn] by (simp add: h_divide_scalar_def new_floats_def rr_eq)
  have run: "sobel_h iref h = Inr (?out, ?h')"
    unfolding sobel_h_by_kernel Let_def
    using hn s1 s2 by (simp add: h_array_def h_zeros_def new_reals_def)
  have len: "length ?h3 \<le> length hn" using kn by (simp add: keep_def)
  have "grow h hn"
    unfolding grow_def
  proof (intro conjI allI impI)
    show "length h \<le> length hn" using len by simp
  next
    fix x assume x: "x < length h"
    then have "hn ! x = ?h3 ! x" using kn by (simp add: keep_def)
    then show "hn ! x = h ! x" using x by (simp add: nth_append)
  qed
  then have "grow h ?h'" by (blast intro: grow_trans grow_append)
  moreover have "length h \<le> ref_buf ?out" using len by simp
  moreover have "load_floats ?out ?h' = Inr (rr, ?h')" by (rule load_floats_new)
  ultimately show ?thesis using run rr by blast
qed

text \<open>
  Claim C8: \<open>sobel\<close> has no side effect on its input. Called on an array object whose
  buffer is in the store, it returns, every buffer that existed before the call holds
  what it held (so every element of the input has its value of before the call), and the
  result lies in a buffer allocated during the call, which is not the buffer of the
  input. The result found in the store is the array that the function on values returns.
\<close>

theorem sobel_pure:
  assumes "load_reals iref h = Inr (img, h)"
  shows "\<exists>out h' r. sobel_h iref h = Inr (out, h')
           \<and> take (length h) h' = h \<and> load_reals iref h' = Inr (img, h')
           \<and> length h \<le> ref_buf out \<and> ref_buf out \<noteq> ref_buf iref
           \<and> load_floats out h' = Inr (r, h') \<and> sobel img = Inr r"
proof -
  from sobel_h_sim [OF assms] obtain out h' r
    where run: "sobel_h iref h = Inr (out, h')" and g: "grow h h'"
      and fresh: "length h \<le> ref_buf out"
      and res: "load_floats out h' = Inr (r, h')" "sobel img = Inr r" by blast
  have "take (length h) h' = h"
    using g by (intro nth_equalityI) (auto simp: grow_def)
  moreover have "load_reals iref h' = Inr (img, h')" by (rule load_reals_grow [OF assms g])
  moreover have "ref_buf out \<noteq> ref_buf iref"
    using fresh load_reals_bound [OF assms] by simp
  ultimately show ?thesis using run fresh res by blast
qed

theorem sobel_pure_witness:
  "load_reals (ARef [4] 1) [RBuf [7], RBuf [1, 2, 4, 8]]
     = Inr (NDArray [4] [1, 2, 4, 8], [RBuf [7], RBuf [1, 2, 4, 8]])
   \<and> (\<exists>out h'. sobel_h (ARef [4] 1) [RBuf [7], RBuf [1, 2, 4, 8]] = Inr (out, h')
           \<and> take 2 h' = [RBuf [7], RBuf [1, 2, 4, 8]]
           \<and> load_reals (ARef [4] 1) h' = Inr (NDArray [4] [1, 2, 4, 8], h')
           \<and> 2 \<le> ref_buf out \<and> ref_buf out \<noteq> 1
           \<and> load_floats out h' = Inr (NDArray [4] [Num 1, Num 3, Num 6, Num 4], h'))"
proof -
  have l: "load_reals (ARef [4] 1) [RBuf [7], RBuf [1, 2, 4, 8]]
     = Inr (NDArray [4] [1, 2, 4, 8], [RBuf [7], RBuf [1, 2, 4, 8]])"
    by (simp add: load_reals_def)
  show ?thesis using l sobel_pure [OF l] by (simp add: numeral_2_eq_2 sobel_example)
qed

end
